theory Spec2Isabelle
  imports
    Main
    "HOL-Library.Sublist"
    "HOL-Library.Multiset"
    "HOL-Library.Char_ord"
    "HOL-Library.List_Lexorder"
    "HOL-Library.Product_Lexorder"
begin

section \<open>Strings and bytes\<close>

text \<open>
  Go strings are byte sequences; \<^typ>\<open>string\<close> (a list of 8-bit \<^typ>\<open>char\<close>) models
  them byte for byte.  Comparison of characters and of strings is the byte-wise
  (lexicographic) order of Go's \<^verbatim>\<open><\<close> on bytes and strings.
\<close>

definition HasPrefix :: "string \<Rightarrow> string \<Rightarrow> bool" where
  \<comment> \<open>\<^verbatim>\<open>strings.HasPrefix(s, prefix)\<close>\<close>
  "HasPrefix s pre = (length pre \<le> length s \<and> take (length pre) s = pre)"

fun Split :: "char \<Rightarrow> string \<Rightarrow> string list" where
  \<comment> \<open>\<^verbatim>\<open>strings.Split(s, sep)\<close> for a one-byte separator\<close>
  "Split sep [] = [[]]"
| "Split sep (c # s) =
     (if c = sep then [] # Split sep s
      else (case Split sep s of
              [] \<Rightarrow> [[c]]
            | e # es \<Rightarrow> (c # e) # es))"

fun Join_sep :: "string list \<Rightarrow> string" where
  \<comment> \<open>\<^verbatim>\<open>strings.Join(elems, "/")\<close>\<close>
  "Join_sep [] = []"
| "Join_sep [e] = e"
| "Join_sep (e # es) = e @ CHR ''/'' # Join_sep es"

section \<open>net/url: unescaping and escaping\<close>

definition ishex :: "char \<Rightarrow> bool" where
  "ishex c =
     (if CHR ''0'' \<le> c \<and> c \<le> CHR ''9'' then True
      else if CHR ''a'' \<le> c \<and> c \<le> CHR ''f'' then True
      else if CHR ''A'' \<le> c \<and> c \<le> CHR ''F'' then True
      else False)"

definition unhex :: "char \<Rightarrow> nat" where
  "unhex c =
     (if CHR ''0'' \<le> c \<and> c \<le> CHR ''9'' then of_char c - of_char CHR ''0''
      else if CHR ''a'' \<le> c \<and> c \<le> CHR ''f'' then of_char c - of_char CHR ''a'' + 10
      else if CHR ''A'' \<le> c \<and> c \<le> CHR ''F'' then of_char c - of_char CHR ''A'' + 10
      else 0)"

datatype url_error = EscapeError string

text \<open>
  \<^verbatim>\<open>url.QueryUnescape\<close> is \<^verbatim>\<open>unescape(s, encodeQueryComponent)\<close>: every \<^verbatim>\<open>%\<close> must be
  followed by two hexadecimal digits (otherwise the call fails with an
  \<^verbatim>\<open>EscapeError\<close> carrying at most three bytes from the offending \<^verbatim>\<open>%\<close>), a valid
  triple becomes the byte it denotes, \<^verbatim>\<open>+\<close> becomes a space, every other byte is kept.
\<close>

fun QueryUnescape :: "string \<Rightarrow> url_error + string" where
  "QueryUnescape [] = Inr []"
| "QueryUnescape (c # s) =
     (if c = CHR ''%'' then
        (case s of
           a # b # rest \<Rightarrow>
             if ishex a \<and> ishex b then
               (case QueryUnescape rest of
                  Inl e \<Rightarrow> Inl e
                | Inr t \<Rightarrow> Inr (char_of (unhex a * 16 + unhex b) # t))
             else Inl (EscapeError (take 3 (c # s)))
         | _ \<Rightarrow> Inl (EscapeError (take 3 (c # s))))
      else
        (case QueryUnescape s of
           Inl e \<Rightarrow> Inl e
         | Inr t \<Rightarrow> Inr ((if c = CHR ''+'' then CHR '' '' else c) # t)))"

definition shouldEscape :: "char \<Rightarrow> bool" where
  \<comment> \<open>\<^verbatim>\<open>shouldEscape(c, encodePathSegment)\<close>\<close>
  "shouldEscape c =
     (if (CHR ''a'' \<le> c \<and> c \<le> CHR ''z'') \<or> (CHR ''A'' \<le> c \<and> c \<le> CHR ''Z'')
          \<or> (CHR ''0'' \<le> c \<and> c \<le> CHR ''9'') then False
      else if c \<in> set ''-_.~'' then False
      else if c \<in> set ''$&+,/:;=?@'' then
        (c = CHR ''/'' \<or> c = CHR '';'' \<or> c = CHR '','' \<or> c = CHR ''?'')
      else True)"

definition upperhex :: "nat \<Rightarrow> char" where
  "upperhex n = ''0123456789ABCDEF'' ! n"

definition PathEscape :: "string \<Rightarrow> string" where
  \<comment> \<open>\<^verbatim>\<open>url.PathEscape(s)\<close>, that is \<^verbatim>\<open>escape(s, encodePathSegment)\<close>\<close>
  "PathEscape s =
     concat (map (\<lambda>c. if shouldEscape c
                        then [CHR ''%'', upperhex (of_char c div 16), upperhex (of_char c mod 16)]
                        else [c]) s)"

section \<open>path and path/filepath (Unix)\<close>

text \<open>
  \<^verbatim>\<open>path.Clean\<close> and, on Unix, \<^verbatim>\<open>filepath.Clean\<close> scan the path element by element:
  an empty element and \<^verbatim>\<open>.\<close> are skipped; \<^verbatim>\<open>..\<close> removes the last element written
  when there is one that is not itself part of a leading run of \<^verbatim>\<open>..\<close>, is appended
  when the path is not rooted, and is dropped at the root; any other element is
  appended.  \<open>clean_step\<close> is one round of that loop, on the elements written so far
  (most recent first).
\<close>

definition clean_step :: "bool \<Rightarrow> string list \<Rightarrow> string \<Rightarrow> string list" where
  "clean_step rooted out e =
     (if e = [] then out
      else if e = ''.'' then out
      else if e = ''..'' then
        (if out \<noteq> [] \<and> hd out \<noteq> ''..'' then tl out
         else if \<not> rooted then ''..'' # out
         else out)
      else e # out)"

definition clean_elems :: "bool \<Rightarrow> string list \<Rightarrow> string list" where
  "clean_elems rooted es = rev (foldl (clean_step rooted) [] es)"

definition Clean :: "string \<Rightarrow> string" where
  "Clean p =
     (if p = [] then ''.''
      else
        let rooted = (hd p = CHR ''/'');
            out = Join_sep (clean_elems rooted (Split CHR ''/'' p))
        in if rooted then CHR ''/'' # out
           else if out = [] then ''.''
           else out)"

definition Join :: "string \<Rightarrow> string \<Rightarrow> string" where
  \<comment> \<open>\<^verbatim>\<open>path.Join(a, b)\<close> and \<^verbatim>\<open>filepath.Join(a, b)\<close>: leading empty elements are ignored\<close>
  "Join a b =
     (if a \<noteq> [] then Clean (a @ CHR ''/'' # b)
      else if b \<noteq> [] then Clean b
      else [])"

definition IsAbs :: "string \<Rightarrow> bool" where
  "IsAbs p = HasPrefix p ''/''"

definition Dir :: "string \<Rightarrow> string" where
  \<comment> \<open>\<^verbatim>\<open>path.Dir\<close>: everything up to and including the last slash, cleaned\<close>
  "Dir p = Clean (rev (dropWhile (\<lambda>c. c \<noteq> CHR ''/'') (rev p)))"

definition Ext :: "string \<Rightarrow> string" where
  \<comment> \<open>\<^verbatim>\<open>filepath.Ext\<close>: the suffix from the last dot of the last element\<close>
  "Ext p =
     (let last_elem = rev (takeWhile (\<lambda>c. c \<noteq> CHR ''/'') (rev p));
          stem = rev (dropWhile (\<lambda>c. c \<noteq> CHR ''.'') (rev last_elem))
      in if stem = [] then [] else drop (length stem - 1) last_elem)"

definition Base :: "string \<Rightarrow> string" where
  \<comment> \<open>\<^verbatim>\<open>filepath.Base\<close>\<close>
  "Base p =
     (if p = [] then ''.''
      else
        let q = rev (dropWhile (\<lambda>c. c = CHR ''/'') (rev p));
            b = rev (takeWhile (\<lambda>c. c \<noteq> CHR ''/'') (rev q))
        in if b = [] then ''/'' else b)"

section \<open>The operating system and the platform libraries\<close>

text \<open>
  Everything the handlers obtain from outside the program is a field of \<open>platform\<close>:
  the working directory (\<^verbatim>\<open>os.Getwd\<close>, used by \<^verbatim>\<open>filepath.Abs\<close>), file metadata
  (\<^verbatim>\<open>os.Stat\<close>), directory contents (\<^verbatim>\<open>File.ReadDir\<close>: the entries in the order in which
  the system delivers them, each with its name and the result of its \<^verbatim>\<open>Info()\<close>
  call), \<^verbatim>\<open>os.Open\<close> (\<open>None\<close> when the file opens), the MIME table
  (\<^verbatim>\<open>mime.TypeByExtension\<close>) and the Unicode case mapping (\<^verbatim>\<open>strings.ToLower\<close>).
  An error of package \<^verbatim>\<open>os\<close> carries what the handlers look at: the error number
  of the system call, from which \<^verbatim>\<open>os.IsNotExist\<close> is decided (it holds of \<^verbatim>\<open>ENOENT\<close>
  and of no other error number), and its text.  The model is of a Unix system:
  the separator is the slash and paths have no volume names.
\<close>

datatype errno = ENOENT | ENOTDIR | EACCES | ENAMETOOLONG | EIO

datatype os_error = OsError (Errno: errno) (Error_text: string)

definition IsNotExist :: "os_error \<Rightarrow> bool" where
  "IsNotExist err = (Errno err = ENOENT)"

record fs_FileInfo =
  fs_Name :: string
  fs_Size :: int
  fs_ModTime :: int
  fs_IsDir :: bool

record DirEntry =
  de_Name :: string
  de_Info :: "os_error + fs_FileInfo"

record platform =
  Getwd :: "os_error + string"
  Stat :: "string \<Rightarrow> os_error + fs_FileInfo"
  File_ReadDir :: "string \<Rightarrow> os_error + DirEntry list"
  Open :: "string \<Rightarrow> os_error option"
  TypeByExtension :: "string \<Rightarrow> string"
  ToLower :: "string \<Rightarrow> string"

text \<open>
  \<^verbatim>\<open>os.ReadDir\<close> reads all entries of the directory and returns them sorted by file
  name (\<^const>\<open>sort_key\<close> is the library's sorting by a key, here in the byte order of
  the names; the names of one directory are distinct, so every sorting gives the
  same list).
\<close>

definition ReadDir :: "platform \<Rightarrow> string \<Rightarrow> os_error + DirEntry list" where
  "ReadDir os name =
     (case File_ReadDir os name of
        Inl err \<Rightarrow> Inl err
      | Inr dirs \<Rightarrow> Inr (sort_key de_Name dirs))"

definition Abs :: "platform \<Rightarrow> string \<Rightarrow> os_error + string" where
  \<comment> \<open>\<^verbatim>\<open>filepath.Abs\<close> on Unix\<close>
  "Abs os p =
     (if IsAbs p then Inr (Clean p)
      else (case Getwd os of
              Inl err \<Rightarrow> Inl err
            | Inr wd \<Rightarrow> Inr (Join wd p)))"

fun Itoa_nat :: "nat \<Rightarrow> string" where
  "Itoa_nat n =
     (if n < 10 then [char_of (48 + n)]
      else Itoa_nat (n div 10) @ [char_of (48 + n mod 10)])"

definition Itoa :: "int \<Rightarrow> string" where
  \<comment> \<open>\<^verbatim>\<open>fmt.Sprintf("%d", n)\<close>\<close>
  "Itoa n = (if n < 0 then CHR ''-'' # Itoa_nat (nat (- n)) else Itoa_nat (nat n))"

section \<open>config.go\<close>

record ServerConfig =
  Port :: int
  Host :: string

record MediaConfig =
  Directory :: string

record Config =
  Server :: ServerConfig
  Media :: MediaConfig

definition GetAbsMediaPath :: "platform \<Rightarrow> Config \<Rightarrow> os_error + string" where
  "GetAbsMediaPath os c = Abs os (Directory (Media c))"

definition IsValidMediaPath :: "platform \<Rightarrow> Config \<Rightarrow> string \<Rightarrow> os_error + bool" where
  "IsValidMediaPath os c requestPath =
     (case GetAbsMediaPath os c of
        Inl err \<Rightarrow> Inl err
      | Inr absMediaPath \<Rightarrow>
          let cleanPath = Clean requestPath in
          if cleanPath = ''.'' \<or> cleanPath = ''/'' then Inr True
          else
            let fullPath = Join absMediaPath cleanPath in
            (case Abs os fullPath of
               Inl err \<Rightarrow> Inl err
             | Inr absFullPath \<Rightarrow> Inr (HasPrefix absFullPath absMediaPath)))"

section \<open>server.go\<close>

record FileInfo =
  Name :: string
  Path :: string
  Size :: int
  ModTime :: int
  IsDir :: bool
  MimeType :: string
  EncodedPath :: string

record DirectoryData =
  DirPath :: string
  ParentPath :: string
  Files :: "FileInfo list"
  ServerName :: string

record Request =
  Method :: string
  URL_Path :: string

text \<open>
  What a handler does is its reply together with the effects it had on the way:
  the lines it logged and the file-system calls it made, in order.  A reply is
  \<^verbatim>\<open>http.Error(w, text, code)\<close> (\<^verbatim>\<open>http.NotFound\<close> is
  \<^verbatim>\<open>http.Error(w, "404 page not found", 404)\<close>), a bare \<^verbatim>\<open>w.WriteHeader(code)\<close>, the
  directory template executed on its data, or the hand-over to \<^verbatim>\<open>http.ServeContent\<close>
  with the request, the headers set before, the file name and the modification
  time.  Write errors on the connection are not part of the model.
\<close>

datatype event =
    LogPrintf string
  | OsStat string
  | OsReadDir string
  | OsOpen string

datatype response =
    HttpError nat string
  | WriteHeader nat
  | DirectoryPage DirectoryData
  | ServeContent Request "(string \<times> string) list" string int

definition less_files :: "platform \<Rightarrow> FileInfo \<Rightarrow> FileInfo \<Rightarrow> bool" where
  "less_files os a b =
     (if IsDir a \<noteq> IsDir b then IsDir a
      else ToLower os (Name a) < ToLower os (Name b))"

text \<open>
  The loop of \<^verbatim>\<open>serveDirectory\<close> over the directory entries: \<open>entry_file\<close> is its
  body, \<open>None\<close> where the body ends in \<^verbatim>\<open>continue\<close> (the entry's \<^verbatim>\<open>Info()\<close> failed, or
  its name starts with a dot), otherwise the record appended to \<^verbatim>\<open>files\<close>.
\<close>

definition entry_file :: "platform \<Rightarrow> string \<Rightarrow> DirEntry \<Rightarrow> FileInfo option" where
  "entry_file os urlPath entry =
     (case de_Info entry of
        Inl err \<Rightarrow> None
      | Inr info \<Rightarrow>
          if HasPrefix (fs_Name info) ''.'' then None
          else
            let filePath = Join urlPath (fs_Name info);
                mimeType =
                  (if \<not> fs_IsDir info then
                     (let mimeType = TypeByExtension os (Ext (fs_Name info))
                      in if mimeType = [] then ''application/octet-stream'' else mimeType)
                   else [])
            in Some \<lparr>Name = fs_Name info, Path = filePath, Size = fs_Size info,
                     ModTime = fs_ModTime info, IsDir = fs_IsDir info, MimeType = mimeType,
                     EncodedPath = PathEscape filePath\<rparr>)"

definition list_entries :: "platform \<Rightarrow> string \<Rightarrow> DirEntry list \<Rightarrow> FileInfo list" where
  "list_entries os urlPath entries = List.map_filter (entry_file os urlPath) entries"

text \<open>
  \<^verbatim>\<open>sort.Slice(files, less)\<close> is modelled by the insertion sort that Go's \<^verbatim>\<open>sort\<close>
  package runs on slices of at most twelve elements: each element in turn moves
  left past the elements it is less than (\<open>insert_less\<close>, on the sorted part with
  its last element first).  On longer slices the library switches to a
  pattern-defeating quicksort, which also returns a permutation in which no element
  is less than an earlier one, with a different order among elements neither of
  which is less than the other; what is proved below about the order of a listing
  rests on these two properties only.
\<close>

fun insert_less :: "('a \<Rightarrow> 'a \<Rightarrow> bool) \<Rightarrow> 'a \<Rightarrow> 'a list \<Rightarrow> 'a list" where
  "insert_less lt x [] = [x]"
| "insert_less lt x (y # ys) =
     (if lt x y then y # insert_less lt x ys else x # y # ys)"

definition sort_Slice :: "('a \<Rightarrow> 'a \<Rightarrow> bool) \<Rightarrow> 'a list \<Rightarrow> 'a list" where
  "sort_Slice lt xs = rev (foldl (\<lambda>done x. insert_less lt x done) [] xs)"

definition serveDirectory ::
    "platform \<Rightarrow> Request \<Rightarrow> string \<Rightarrow> string \<Rightarrow> response \<times> event list" where
  "serveDirectory os r fullPath urlPath =
     (case ReadDir os fullPath of
        Inl err \<Rightarrow> (HttpError 500 ''Unable to read directory'', [OsReadDir fullPath])
      | Inr entries \<Rightarrow>
          let files = sort_Slice (less_files os) (list_entries os urlPath entries);
              parentPath =
                (if urlPath \<noteq> ''/'' then
                   (let d = Dir urlPath in if d = ''.'' then ''/'' else d)
                 else [])
          in (DirectoryPage \<lparr>DirPath = urlPath, ParentPath = parentPath, Files = files,
                             ServerName = ''HTTP Media Server''\<rparr>,
              [OsReadDir fullPath]))"


definition serveFile ::
    "platform \<Rightarrow> Request \<Rightarrow> string \<Rightarrow> fs_FileInfo \<Rightarrow> response \<times> event list" where
  "serveFile os r fullPath fileInfo =
     (case Open os fullPath of
        Some err \<Rightarrow> (HttpError 500 ''Unable to open file'', [OsOpen fullPath])
      | None \<Rightarrow>
          let contentType = TypeByExtension os (Ext fullPath);
              contentType =
                (if contentType = [] then ''application/octet-stream'' else contentType);
              filename = Base fullPath
          in (ServeContent r
                [(''Content-Type'', contentType),
                 (''Accept-Ranges'', ''bytes''),
                 (''Cache-Control'', ''public, max-age=3600''),
                 (''Content-Length'', Itoa (fs_Size fileInfo)),
                 (''Content-Disposition'',
                    ''inline; filename='' @ [CHR 0x22] @ filename @ [CHR 0x22])]
                filename (fs_ModTime fileInfo),
              [OsOpen fullPath]))"

text \<open>
  \<^verbatim>\<open>handleRequest\<close> in its two halves: \<open>resolvePath\<close> is the function up to and including
  the security check (decode, clean, join, compare the absolute paths), ending in the
  reply of an early return or in \<^verbatim>\<open>fullPath\<close> and \<^verbatim>\<open>cleanPath\<close>; \<open>dispatch\<close> is the rest
  (\<^verbatim>\<open>os.Stat\<close>, then the directory listing or the file).  \<^verbatim>\<open>path.Clean\<close> and
  \<^verbatim>\<open>filepath.Join\<close> are \<open>Clean\<close> and \<open>Join\<close>: on Unix the two packages agree.
\<close>

definition resolvePath :: "platform \<Rightarrow> Config \<Rightarrow> Request \<Rightarrow> response + string \<times> string" where
  "resolvePath os config r =
     (case QueryUnescape (URL_Path r) of
        Inl err \<Rightarrow> Inl (HttpError 400 ''Invalid URL path'')
      | Inr decodedPath \<Rightarrow>
          let cleanPath = Clean decodedPath;
              cleanPath = (if cleanPath = ''.'' then ''/'' else cleanPath);
              fullPath = Join (Directory (Media config)) cleanPath
          in
          (case Abs os (Directory (Media config)) of
             Inl err \<Rightarrow> Inl (HttpError 500 ''Internal server error'')
           | Inr absMediaDir \<Rightarrow>
               (case Abs os fullPath of
                  Inl err \<Rightarrow> Inl (HttpError 500 ''Internal server error'')
                | Inr absFullPath \<Rightarrow>
                    if \<not> HasPrefix absFullPath absMediaDir then
                      Inl (HttpError 403 ''Forbidden'')
                    else Inr (fullPath, cleanPath))))"

definition dispatch ::
    "platform \<Rightarrow> Request \<Rightarrow> string \<Rightarrow> string \<Rightarrow> response \<times> event list" where
  "dispatch os r fullPath cleanPath =
     (case Stat os fullPath of
        Inl err \<Rightarrow>
          if IsNotExist err then
            (HttpError 404 ''404 page not found'',
             [OsStat fullPath,
              LogPrintf (''File not found: '' @ fullPath @ '' (requested: ''
                         @ URL_Path r @ '')'')])
          else
            (HttpError 500 ''Internal server error'',
             [OsStat fullPath,
              LogPrintf (''Error accessing file '' @ fullPath @ '': '' @ Error_text err)])
      | Inr fileInfo \<Rightarrow>
          let (resp, evs) =
                (if fs_IsDir fileInfo
                 then serveDirectory os r fullPath cleanPath
                 else serveFile os r fullPath fileInfo)
          in (resp, OsStat fullPath # evs))"

definition handleRequest :: "platform \<Rightarrow> Config \<Rightarrow> Request \<Rightarrow> response \<times> event list" where
  "handleRequest os config r =
     (case resolvePath os config r of
        Inl reply \<Rightarrow> (reply, [])
      | Inr (fullPath, cleanPath) \<Rightarrow> dispatch os r fullPath cleanPath)"

definition cors_headers :: "(string \<times> string) list" where
  "cors_headers =
     [(''Access-Control-Allow-Origin'', ''*''),
      (''Access-Control-Allow-Methods'', ''GET, HEAD, OPTIONS''),
      (''Access-Control-Allow-Headers'', ''Content-Type, Range'')]"

definition corsMiddleware ::
    "(Request \<Rightarrow> response \<times> event list) \<Rightarrow> Request
       \<Rightarrow> (string \<times> string) list \<times> response \<times> event list" where
  "corsMiddleware next r =
     (if Method r = ''OPTIONS'' then (cors_headers, WriteHeader 200, [])
      else (cors_headers, next r))"

section \<open>Containment in the served root\<close>

text \<open>
  The elements of a path are what stands between its slashes.  A clean absolute
  path is a slash followed by its elements with single slashes between them, none
  of the elements empty, \<^verbatim>\<open>.\<close> or \<^verbatim>\<open>..\<close>: every element is the name of a directory
  entry, and the path says where it leads.  A path lies within a root when both are
  clean absolute paths and the root's elements are the first elements of the path:
  this is containment element by element, under which \<^verbatim>\<open>/media2\<close> is not within
  \<^verbatim>\<open>/media\<close>, and which no path with a \<^verbatim>\<open>..\<close> in it meets.
\<close>

definition path_elems :: "string \<Rightarrow> string list" where
  "path_elems p = filter (\<lambda>e. e \<noteq> []) (Split CHR ''/'' p)"

definition plain_elem :: "string \<Rightarrow> bool" where
  \<comment> \<open>a path element that \<open>Clean\<close> copies: not empty, not \<^verbatim>\<open>.\<close>, not \<^verbatim>\<open>..\<close>, without a slash\<close>
  "plain_elem e = (e \<noteq> [] \<and> e \<noteq> ''.'' \<and> e \<noteq> ''..'' \<and> CHR ''/'' \<notin> set e)"

definition clean_abs :: "string \<Rightarrow> bool" where
  "clean_abs p = (p = CHR ''/'' # Join_sep (path_elems p) \<and> list_all plain_elem (path_elems p))"

definition within_root :: "string \<Rightarrow> string \<Rightarrow> bool" where
  "within_root root p =
     (clean_abs root \<and> clean_abs p \<and> prefix (path_elems root) (path_elems p))"

definition kept_elem :: "string \<Rightarrow> bool" where
  \<comment> \<open>an element that \<open>Clean\<close> may leave in its result: a plain one, or \<^verbatim>\<open>..\<close>\<close>
  "kept_elem e = (e \<noteq> [] \<and> e \<noteq> ''.'' \<and> CHR ''/'' \<notin> set e)"

definition plus_to_space :: "char \<Rightarrow> char" where
  "plus_to_space c = (if c = CHR ''+'' then CHR '' '' else c)"

fun touched :: "event \<Rightarrow> string list" where
  "touched (LogPrintf line) = []"
| "touched (OsStat p) = [p]"
| "touched (OsReadDir p) = [p]"
| "touched (OsOpen p) = [p]"

section \<open>The order of a listing\<close>

text \<open>
  \<open>less_files\<close> compares two records by the pair of "is not a directory" and the
  lower-cased name, in the lexicographic order of pairs (\<open>False\<close> before \<open>True\<close>).
\<close>

definition listing_key :: "platform \<Rightarrow> FileInfo \<Rightarrow> bool \<times> string" where
  "listing_key os f = (\<not> IsDir f, ToLower os (Name f))"

definition listing_ordered :: "platform \<Rightarrow> FileInfo list \<Rightarrow> bool" where
  "listing_ordered os files =
     sorted_wrt (\<lambda>a b. (if IsDir a = IsDir b
                          then ToLower os (Name a) \<le> ToLower os (Name b)
                          else IsDir a)) files"

section \<open>A file tree\<close>










section \<open>A sample platform\<close>

text \<open>
  A served root \<^verbatim>\<open>./media\<close> under the working directory \<^verbatim>\<open>/opt/http-media-server\<close>
  with a few entries, for evaluating the handlers.  \<open>ToLower_ascii\<close> is
  \<^verbatim>\<open>strings.ToLower\<close> on ASCII strings.
\<close>

definition ToLower_ascii :: "string \<Rightarrow> string" where
  "ToLower_ascii s =
     map (\<lambda>c. if CHR ''A'' \<le> c \<and> c \<le> CHR ''Z'' then char_of (of_char c + 32 :: nat) else c) s"

definition sample_mime :: "string \<Rightarrow> string" where
  "sample_mime ext =
     (if ext = ''.mp4'' then ''video/mp4''
      else if ext = ''.txt'' then ''text/plain; charset=utf-8''
      else [])"

definition sample_info :: "string \<Rightarrow> bool \<Rightarrow> fs_FileInfo" where
  "sample_info name is_dir = \<lparr>fs_Name = name, fs_Size = 1234, fs_ModTime = 0, fs_IsDir = is_dir\<rparr>"

definition sample_entry :: "string \<Rightarrow> bool \<Rightarrow> DirEntry" where
  "sample_entry name is_dir = \<lparr>de_Name = name, de_Info = Inr (sample_info name is_dir)\<rparr>"

definition sample_entries :: "DirEntry list" where
  \<comment> \<open>the entries of the served root, in the order of their names\<close>
  "sample_entries =
     [sample_entry ''.hidden'' False, sample_entry ''Z.mp4'' False,
      sample_entry ''a+b.txt'' False, sample_entry ''a.txt'' False,
      sample_entry ''sub'' True]"

definition delivered_entries :: "DirEntry list" where
  \<comment> \<open>the same entries, in the order in which the system delivers them\<close>
  "delivered_entries =
     [sample_entry ''sub'' True, sample_entry ''a.txt'' False, sample_entry ''.hidden'' False,
      sample_entry ''Z.mp4'' False, sample_entry ''a+b.txt'' False]"

definition sample_os :: platform where
  "sample_os =
     \<lparr>Getwd = Inr ''/opt/http-media-server'',
      Stat = (\<lambda>p. if p = ''media'' then Inr (sample_info ''media'' True)
                   else if p = ''media/a+b.txt'' then Inr (sample_info ''a+b.txt'' False)
                   else if p = ''media/locked'' then
                     Inl (OsError EACCES (''stat '' @ p @ '': permission denied''))
                   else Inl (OsError ENOENT (''stat '' @ p @ '': no such file or directory''))),
      File_ReadDir = (\<lambda>p. if p = ''media'' then Inr delivered_entries
                           else Inl (OsError ENOTDIR (''open '' @ p @ '': not a directory''))),
      Open = (\<lambda>p. None),
      TypeByExtension = sample_mime,
      ToLower = ToLower_ascii\<rparr>"

definition sample_config :: Config where
  "sample_config =
     \<lparr>Server = \<lparr>Port = 8080, Host = ''0.0.0.0''\<rparr>, Media = \<lparr>Directory = ''./media''\<rparr>\<rparr>"

definition data_config :: Config where
  "data_config =
     \<lparr>Server = \<lparr>Port = 8080, Host = ''0.0.0.0''\<rparr>, Media = \<lparr>Directory = ''/data''\<rparr>\<rparr>"

definition sample_request :: Request where
  "sample_request = \<lparr>Method = ''GET'', URL_Path = ''/''\<rparr>"

definition sample_file :: "string \<Rightarrow> string \<Rightarrow> string \<Rightarrow> FileInfo" where
  "sample_file name mime encoded =
     \<lparr>Name = name, Path = CHR ''/'' # name, Size = 1234, ModTime = 0, IsDir = False,
      MimeType = mime, EncodedPath = encoded\<rparr>"

definition sample_listing :: DirectoryData where
  "sample_listing =
     \<lparr>DirPath = ''/'', ParentPath = [],
      Files =
        [\<lparr>Name = ''sub'', Path = ''/sub'', Size = 1234, ModTime = 0, IsDir = True,
          MimeType = [], EncodedPath = ''%2Fsub''\<rparr>,
         sample_file ''a+b.txt'' ''text/plain; charset=utf-8'' ''%2Fa+b.txt'',
         sample_file ''a.txt'' ''text/plain; charset=utf-8'' ''%2Fa.txt'',
         sample_file ''Z.mp4'' ''video/mp4'' ''%2FZ.mp4''],
      ServerName = ''HTTP Media Server''\<rparr>"



section \<open>The library functions on examples\<close>

text \<open>
  The models of the library functions agree with the Go library on these inputs,
  most of them from the tables of the library's own tests.
\<close>

lemma Clean_examples:
  "map Clean ['''', ''abc'', ''../../abc'', ''/'', ''abc/'', ''../'', ''abc//def//ghi'', ''//abc//'',
              ''abc/./def'', ''/./abc/def'', ''abc/def/../ghi/../jkl'', ''abc/def/../..'',
              ''/abc/def/../../..'', ''abc/def/../../../ghi/jkl/../../../mno'', ''abc/../../././../def'']
   = [''.'', ''abc'', ''../../abc'', ''/'', ''abc'', ''..'', ''abc/def/ghi'', ''/abc'',
      ''abc/def'', ''/abc/def'', ''abc/jkl'', ''.'',
      ''/'', ''../../mno'', ''../../def'']"
  by code_simp

lemma Join_examples:
  "Join ''./media'' ''/a/b'' = ''media/a/b'' \<and> Join ''/srv/media'' ''/'' = ''/srv/media''
   \<and> Join ''/'' ''sub'' = ''/sub'' \<and> Join '''' ''/a'' = ''/a'' \<and> Join ''a'' '''' = ''a''
   \<and> Join ''/data'' ''../x'' = ''/x''"
  by code_simp

lemma Dir_Ext_Base_examples:
  "map Dir [''/a/b'', ''/a'', ''/'', ''a''] = [''/a'', ''/'', ''/'', ''.'']
   \<and> map Ext [''a.txt'', ''a'', ''a.b/c'', ''a.tar.gz''] = [''.txt'', [], [], ''.gz'']
   \<and> map Base [''/a/b.txt'', ''/'', '''', ''a/''] = [''b.txt'', ''/'', ''.'', ''a'']"
  by code_simp

lemma QueryUnescape_examples:
  "QueryUnescape ''/a+b%20c'' = Inr ''/a b c'' \<and> QueryUnescape ''/%2e%2E/x'' = Inr ''/../x''
   \<and> QueryUnescape ''/%zz'' = Inl (EscapeError ''%zz'') \<and> QueryUnescape ''/%4'' = Inl (EscapeError ''%4'')
   \<and> QueryUnescape ''%'' = Inl (EscapeError ''%'')"
  by code_simp

lemma PathEscape_examples:
  "PathEscape ''/a+b c.txt'' = ''%2Fa+b%20c.txt'' \<and> PathEscape ''/100%.txt'' = ''%2F100%25.txt''
   \<and> PathEscape ''/d/e;f'' = ''%2Fd%2Fe%3Bf''"
  by code_simp

section \<open>Shapes of the replies\<close>

lemma serveDirectory_cases:
  "(\<exists>data. serveDirectory os r fullPath urlPath = (DirectoryPage data, [OsReadDir fullPath]))
   \<or> serveDirectory os r fullPath urlPath = (HttpError 500 ''Unable to read directory'', [OsReadDir fullPath])"
  by (simp add: serveDirectory_def Let_def split: sum.split)

lemma serveFile_cases:
  "(\<exists>hs name t. serveFile os r fullPath fileInfo = (ServeContent r hs name t, [OsOpen fullPath]))
   \<or> serveFile os r fullPath fileInfo = (HttpError 500 ''Unable to open file'', [OsOpen fullPath])"
  by (simp add: serveFile_def Let_def split: option.split)

lemma dispatch_touched:
  assumes "ev \<in> set (snd (dispatch os r fullPath cleanPath))" and "p \<in> set (touched ev)"
  shows "p = fullPath"
proof (cases "Stat os fullPath")
  case (Inl err)
  with assms show ?thesis by (auto simp: dispatch_def split: if_splits)
next
  case (Inr fileInfo)
  with assms serveDirectory_cases [of os r fullPath cleanPath] serveFile_cases [of os r fullPath fileInfo]
  show ?thesis by (auto simp: dispatch_def split: if_splits)
qed

section \<open>Paths by their elements\<close>

subsection \<open>Splitting and joining at slashes\<close>

lemma Split_not_Nil: "Split c s \<noteq> []"
  by (induction s) (auto split: list.split)

lemma Split_append: "Split c (a @ c # b) = Split c a @ Split c b"
proof (induction a)
  case Nil
  then show ?case by simp
next
  case (Cons x a)
  then show ?case
    using Split_not_Nil [of c a] by (cases "Split c a") auto
qed

lemma Split_sepfree: "c \<notin> set s \<Longrightarrow> Split c s = [s]"
  by (induction s) auto

lemma Split_elems_sepfree: "e \<in> set (Split c s) \<Longrightarrow> c \<notin> set e"
proof (induction s arbitrary: e)
  case Nil
  then show ?case by simp
next
  case (Cons x s)
  then show ?case
    using Split_not_Nil [of c s] by (cases "Split c s") (auto split: if_splits)
qed

lemma Split_elems_sepfree_all: "\<forall>e \<in> set (Split c s). c \<notin> set e"
  by (auto dest: Split_elems_sepfree)

lemma Split_Join_sep:
  "es \<noteq> [] \<Longrightarrow> \<forall>e \<in> set es. CHR ''/'' \<notin> set e \<Longrightarrow> Split CHR ''/'' (Join_sep es) = es"
proof (induction es rule: Join_sep.induct)
  case 1
  then show ?case by simp
next
  case (2 e)
  then show ?case by (simp add: Split_sepfree)
next
  case (3 e v va)
  then show ?case by (simp add: Split_append Split_sepfree)
qed

lemma Join_sep_Nil_iff: "\<forall>e \<in> set es. e \<noteq> [] \<Longrightarrow> Join_sep es = [] \<longleftrightarrow> es = []"
  by (induction es rule: Join_sep.induct) auto

lemma hd_Join_sep: "es \<noteq> [] \<Longrightarrow> hd es \<noteq> [] \<Longrightarrow> hd (Join_sep es) = hd (hd es)"
  by (induction es rule: Join_sep.induct) auto

lemma Join_sep_append:
  "xs \<noteq> [] \<Longrightarrow> ys \<noteq> [] \<Longrightarrow> Join_sep (xs @ ys) = Join_sep xs @ CHR ''/'' # Join_sep ys"
proof (induction xs rule: Join_sep.induct)
  case 1
  then show ?case by simp
next
  case (2 e)
  then show ?case by (cases ys) simp_all
next
  case (3 e v va)
  then show ?case by simp
qed

lemma Join_sep_map:
  assumes "f CHR ''/'' = CHR ''/''"
  shows "Join_sep (map (map f) es) = map f (Join_sep es)"
  by (induction es rule: Join_sep.induct) (simp_all add: assms)



lemma HasPrefix_append: "HasPrefix (a @ b) a"
  by (simp add: HasPrefix_def)

lemma HasPrefix_rooted_elems: "HasPrefix (CHR ''/'' # Join_sep (ds @ cs)) (CHR ''/'' # Join_sep ds)"
proof (cases "ds = [] \<or> cs = []")
  case True
  then show ?thesis by (auto simp: HasPrefix_def)
next
  case False
  then have "CHR ''/'' # Join_sep (ds @ cs) = (CHR ''/'' # Join_sep ds) @ CHR ''/'' # Join_sep cs"
    by (simp add: Join_sep_append)
  then show ?thesis by (simp only: HasPrefix_append)
qed

subsection \<open>The cleaning loop\<close>

lemma foldl_clean_plain:
  "\<forall>e \<in> set xs. plain_elem e \<Longrightarrow> foldl (clean_step r) acc xs = rev xs @ acc"
  by (induction xs arbitrary: acc) (auto simp: clean_step_def plain_elem_def)

lemma set_tl_subset: "x \<in> set (tl xs) \<Longrightarrow> x \<in> set xs"
  by (cases xs) auto

lemma clean_step_rooted_plain:
  assumes "\<forall>x \<in> set acc. plain_elem x" and "CHR ''/'' \<notin> set e"
  shows "\<forall>x \<in> set (clean_step True acc e). plain_elem x"
  using assms by (auto simp: clean_step_def plain_elem_def dest: set_tl_subset)

lemma foldl_clean_rooted_plain:
  "\<forall>x \<in> set acc. plain_elem x \<Longrightarrow> \<forall>e \<in> set es. CHR ''/'' \<notin> set e \<Longrightarrow>
   \<forall>x \<in> set (foldl (clean_step True) acc es). plain_elem x"
proof (induction es arbitrary: acc)
  case Nil
  then show ?case by simp
next
  case (Cons e es)
  from Cons.prems have a: "\<forall>x \<in> set acc. plain_elem x" and b: "CHR ''/'' \<notin> set e"
    by auto
  have "\<forall>x \<in> set (clean_step True acc e). plain_elem x"
    by (rule clean_step_rooted_plain [OF a b])
  with Cons show ?case by simp
qed

lemma clean_elems_rooted_plain:
  "\<forall>x \<in> set (clean_elems True (Split CHR ''/'' p)). plain_elem x"
  unfolding clean_elems_def set_rev
  by (rule foldl_clean_rooted_plain) (auto dest: Split_elems_sepfree)

lemma clean_step_result:
  "clean_step r acc e = acc \<or> clean_step r acc e = tl acc \<or> clean_step r acc e = ''..'' # acc
   \<or> (clean_step r acc e = e # acc \<and> e \<noteq> [] \<and> e \<noteq> ''.'')"
  by (simp add: clean_step_def)

lemma clean_step_kept:
  assumes "\<forall>x \<in> set acc. kept_elem x" and "CHR ''/'' \<notin> set e"
  shows "\<forall>x \<in> set (clean_step r acc e). kept_elem x"
proof -
  have tl: "\<forall>x \<in> set (tl acc). kept_elem x"
    using assms(1) by (auto dest: set_tl_subset)
  have dd: "\<forall>x \<in> set (''..'' # acc). kept_elem x"
    using assms(1) by (simp add: kept_elem_def)
  from clean_step_result [of r acc e] show ?thesis
  proof (elim disjE conjE)
    assume "clean_step r acc e = acc"
    with assms(1) show ?thesis by simp
  next
    assume "clean_step r acc e = tl acc"
    with tl show ?thesis by simp
  next
    assume "clean_step r acc e = ''..'' # acc"
    with dd show ?thesis by simp
  next
    assume "clean_step r acc e = e # acc" "e \<noteq> []" "e \<noteq> ''.''"
    with assms show ?thesis by (simp add: kept_elem_def)
  qed
qed

lemma foldl_clean_kept:
  "\<forall>x \<in> set acc. kept_elem x \<Longrightarrow>
   \<forall>e \<in> set es. CHR ''/'' \<notin> set e \<Longrightarrow>
   \<forall>x \<in> set (foldl (clean_step r) acc es). kept_elem x"
proof (induction es arbitrary: acc)
  case Nil
  then show ?case by simp
next
  case (Cons e es)
  from Cons.prems have a: "\<forall>x \<in> set acc. kept_elem x"
    and b: "CHR ''/'' \<notin> set e"
    by auto
  have "\<forall>x \<in> set (clean_step r acc e). kept_elem x"
    by (rule clean_step_kept [OF a b])
  with Cons show ?case by simp
qed

lemma clean_elems_kept:
  "\<forall>x \<in> set (clean_elems r (Split CHR ''/'' p)). kept_elem x"
  unfolding clean_elems_def set_rev
  by (rule foldl_clean_kept [OF _ Split_elems_sepfree_all]) simp

text \<open>Cleaning a cleaned relative path again, after any prefix, changes nothing.\<close>

lemma foldl_clean_absorb:
  assumes "\<forall>e \<in> set es. CHR ''/'' \<notin> set e"
  shows "foldl (clean_step r) acc (rev (foldl (clean_step False) [] es)) = foldl (clean_step r) acc es"
  using assms
proof (induction es rule: rev_induct)
  case Nil
  then show ?case by simp
next
  case (snoc e es)
  define S where "S = foldl (clean_step False) [] es"
  from snoc.prems have es: "\<forall>e \<in> set es. CHR ''/'' \<notin> set e"
    by simp
  have kept: "\<forall>x \<in> set S. kept_elem x"
    unfolding S_def by (rule foldl_clean_kept [OF _ es]) simp
  from snoc.IH es have IH: "foldl (clean_step r) acc (rev S) = foldl (clean_step r) acc es"
    by (simp add: S_def)
  show ?case
  proof (cases "e = ''..'' \<and> S \<noteq> [] \<and> hd S \<noteq> ''..''")
    case True
    then obtain t ts where S: "S = t # ts" and t: "t \<noteq> ''..''"
      by (cases S) auto
    from kept S have t': "t \<noteq> []" "t \<noteq> ''.''" by (auto simp: kept_elem_def)
    have "clean_step False S e = ts"
      using True S by (simp add: clean_step_def)
    moreover have "clean_step r (foldl (clean_step r) acc (rev S)) e = foldl (clean_step r) acc (rev ts)"
      using True S t t' by (simp add: clean_step_def)
    ultimately show ?thesis
      using IH by (simp add: S_def [symmetric])
  next
    case False
    have "(clean_step False S e = S \<and> (\<forall>X. clean_step r X e = X))
               \<or> clean_step False S e = e # S"
    proof (cases "e = [] \<or> e = ''.''")
      case True
      then show ?thesis by (auto simp: clean_step_def)
    next
      case plain: False
      show ?thesis
      proof (cases "e = ''..''")
        case True
        with False have "S = [] \<or> hd S = ''..''" by blast
        with True show ?thesis by (auto simp: clean_step_def)
      next
        case False
        with plain show ?thesis by (simp add: clean_step_def)
      qed
    qed
    then show ?thesis
    proof
      assume "clean_step False S e = S \<and> (\<forall>X. clean_step r X e = X)"
      then show ?thesis
        using IH by (simp add: S_def [symmetric])
    next
      assume "clean_step False S e = e # S"
      then show ?thesis
        using IH by (simp add: S_def [symmetric])
    qed
  qed
qed

subsection \<open>Clean, Join and Abs by elements\<close>

lemma plain_elems_kept: "\<forall>e \<in> set es. plain_elem e \<Longrightarrow> \<forall>e \<in> set es. kept_elem e"
  by (simp add: plain_elem_def kept_elem_def)

lemma kept_elems_sepfree: "\<forall>e \<in> set es. kept_elem e \<Longrightarrow> \<forall>e \<in> set es. CHR ''/'' \<notin> set e"
  by (simp add: kept_elem_def)

lemma kept_elems_nonempty: "\<forall>e \<in> set es. kept_elem e \<Longrightarrow> \<forall>e \<in> set es. e \<noteq> []"
  by (simp add: kept_elem_def)

lemma IsAbs_iff: "IsAbs p \<longleftrightarrow> p \<noteq> [] \<and> hd p = CHR ''/''"
  by (cases p) (auto simp: IsAbs_def HasPrefix_def)

lemma Clean_rooted:
  assumes "p \<noteq> []" and "hd p = CHR ''/''"
  shows "Clean p = CHR ''/'' # Join_sep (clean_elems True (Split CHR ''/'' p))"
  using assms by (simp add: Clean_def Let_def)

lemma Clean_unrooted:
  assumes "p \<noteq> []" and "hd p \<noteq> CHR ''/''"
  shows "Clean p = (if clean_elems False (Split CHR ''/'' p) = [] then ''.''
                    else Join_sep (clean_elems False (Split CHR ''/'' p)))"
proof -
  have "Join_sep (clean_elems False (Split CHR ''/'' p)) = []
          \<longleftrightarrow> clean_elems False (Split CHR ''/'' p) = []"
    by (rule Join_sep_Nil_iff [OF kept_elems_nonempty [OF clean_elems_kept]])
  with assms show ?thesis by (simp add: Clean_def Let_def)
qed

lemma Join_Clean: "a \<noteq> [] \<Longrightarrow> Join a b = Clean (a @ CHR ''/'' # b)"
  by (simp add: Join_def)

lemma foldl_clean_rooted_string:
  assumes "\<forall>e \<in> set cs. plain_elem e"
  shows "foldl (clean_step r) acc (Split CHR ''/'' (CHR ''/'' # Join_sep cs)) = rev cs @ acc"
proof (cases "cs = []")
  case True
  then show ?thesis by (simp add: clean_step_def)
next
  case False
  with assms have "Split CHR ''/'' (Join_sep cs) = cs"
    by (intro Split_Join_sep kept_elems_sepfree plain_elems_kept)
  with assms show ?thesis
    by (simp add: foldl_clean_plain clean_step_def)
qed

lemma clean_elems_rooted_string:
  assumes "\<forall>e \<in> set cs. plain_elem e"
  shows "clean_elems True (Split CHR ''/'' (CHR ''/'' # Join_sep cs)) = cs"
  by (simp only: clean_elems_def foldl_clean_rooted_string [OF assms] append_Nil2 rev_rev_ident)

lemma foldl_clean_unrooted_string:
  assumes "\<forall>e \<in> set xs. kept_elem e"
  shows "foldl (clean_step r) acc (Split CHR ''/'' (if xs = [] then ''.'' else Join_sep xs))
           = foldl (clean_step r) acc xs"
proof (cases "xs = []")
  case True
  then show ?thesis by (simp add: clean_step_def)
next
  case False
  with assms have "Split CHR ''/'' (Join_sep xs) = xs"
    by (intro Split_Join_sep kept_elems_sepfree)
  with False show ?thesis by simp
qed

lemma unrooted_string_not_abs:
  assumes "\<forall>e \<in> set xs. kept_elem e"
  shows "\<not> IsAbs (if xs = [] then ''.'' else Join_sep xs)"
proof (cases "xs = []")
  case True
  then show ?thesis by (simp add: IsAbs_iff)
next
  case False
  with assms have "kept_elem (hd xs)" by simp
  then have "hd xs \<noteq> []" and "CHR ''/'' \<notin> set (hd xs)"
    by (simp_all add: kept_elem_def)
  then have "hd (hd xs) \<noteq> CHR ''/''"
    by (cases "hd xs") auto
  with False \<open>hd xs \<noteq> []\<close> show ?thesis
    by (simp add: IsAbs_iff hd_Join_sep)
qed

text \<open>
  The heart of the containment argument: joining a clean rooted path (elements \<open>cs\<close>)
  onto a directory \<open>d\<close> and making the result absolute gives the elements of the
  absolute directory followed by \<open>cs\<close>.
\<close>

lemma Abs_rooted_dir:
  assumes d: "d \<noteq> []" "hd d = CHR ''/''" and cs: "\<forall>e \<in> set cs. plain_elem e"
  shows "Abs os d = Inr (CHR ''/'' # Join_sep (clean_elems True (Split CHR ''/'' d)))"
    and "Join d (CHR ''/'' # Join_sep cs)
           = CHR ''/'' # Join_sep (clean_elems True (Split CHR ''/'' d) @ cs)"
    and "Abs os (Join d (CHR ''/'' # Join_sep cs))
           = Inr (CHR ''/'' # Join_sep (clean_elems True (Split CHR ''/'' d) @ cs))"
proof -
  let ?D = "clean_elems True (Split CHR ''/'' d)"
  show "Abs os d = Inr (CHR ''/'' # Join_sep ?D)"
    using d by (simp add: Abs_def IsAbs_iff Clean_rooted)
  have "Join d (CHR ''/'' # Join_sep cs) = Clean (d @ CHR ''/'' # CHR ''/'' # Join_sep cs)"
    using d by (simp add: Join_Clean)
  also have "\<dots> = CHR ''/'' # Join_sep (clean_elems True
                      (Split CHR ''/'' (d @ CHR ''/'' # CHR ''/'' # Join_sep cs)))"
    using d by (intro Clean_rooted) auto
  also have "clean_elems True (Split CHR ''/'' (d @ CHR ''/'' # CHR ''/'' # Join_sep cs)) = ?D @ cs"
    by (simp only: clean_elems_def Split_append foldl_append foldl_clean_rooted_string [OF cs] rev_append rev_rev_ident)
  finally show full: "Join d (CHR ''/'' # Join_sep cs) = CHR ''/'' # Join_sep (?D @ cs)" .
  have plain: "\<forall>e \<in> set (?D @ cs). plain_elem e"
    using cs clean_elems_rooted_plain [of d] by auto
  have "Clean (CHR ''/'' # Join_sep (?D @ cs))
          = CHR ''/'' # Join_sep (clean_elems True (Split CHR ''/'' (CHR ''/'' # Join_sep (?D @ cs))))"
    by (rule Clean_rooted) simp_all
  also have "clean_elems True (Split CHR ''/'' (CHR ''/'' # Join_sep (?D @ cs))) = ?D @ cs"
    by (rule clean_elems_rooted_string [OF plain])
  finally have "Clean (CHR ''/'' # Join_sep (?D @ cs)) = CHR ''/'' # Join_sep (?D @ cs)" .
  then show "Abs os (Join d (CHR ''/'' # Join_sep cs)) = Inr (CHR ''/'' # Join_sep (?D @ cs))"
    by (simp add: full Abs_def IsAbs_iff)
qed

lemma Join_unrooted_dir:
  assumes d: "d \<noteq> []" "hd d \<noteq> CHR ''/''" and cs: "\<forall>e \<in> set cs. plain_elem e"
  shows "Join d (CHR ''/'' # Join_sep cs)
           = (if clean_elems False (Split CHR ''/'' d) @ cs = [] then ''.''
              else Join_sep (clean_elems False (Split CHR ''/'' d) @ cs))"
proof -
  have "Join d (CHR ''/'' # Join_sep cs) = Clean (d @ CHR ''/'' # CHR ''/'' # Join_sep cs)"
    using d by (simp add: Join_Clean)
  also have "\<dots> = (if clean_elems False (Split CHR ''/'' (d @ CHR ''/'' # CHR ''/'' # Join_sep cs)) = [] then ''.''
                     else Join_sep (clean_elems False (Split CHR ''/'' (d @ CHR ''/'' # CHR ''/'' # Join_sep cs))))"
    using d by (intro Clean_unrooted) auto
  also have "clean_elems False (Split CHR ''/'' (d @ CHR ''/'' # CHR ''/'' # Join_sep cs))
               = clean_elems False (Split CHR ''/'' d) @ cs"
    by (simp only: clean_elems_def Split_append foldl_append foldl_clean_rooted_string [OF cs] rev_append rev_rev_ident)
  finally show ?thesis .
qed

lemma Abs_relative_dir:
  assumes d: "d \<noteq> []" "hd d \<noteq> CHR ''/''" and cs: "\<forall>e \<in> set cs. plain_elem e"
    and wd: "Getwd os = Inr wd" "wd \<noteq> []" "hd wd = CHR ''/''"
  shows "Abs os d = Inr (CHR ''/'' # Join_sep (clean_elems True (Split CHR ''/'' wd @ Split CHR ''/'' d)))"
    and "Abs os (Join d (CHR ''/'' # Join_sep cs))
           = Inr (CHR ''/'' # Join_sep (clean_elems True (Split CHR ''/'' wd @ Split CHR ''/'' d) @ cs))"
proof -
  let ?W = "clean_elems True (Split CHR ''/'' wd @ Split CHR ''/'' d)"
  let ?DF = "clean_elems False (Split CHR ''/'' d)"
  have wd_join: "Join wd p = CHR ''/'' # Join_sep (clean_elems True (Split CHR ''/'' wd @ Split CHR ''/'' p))" for p
  proof -
    have "Join wd p = Clean (wd @ CHR ''/'' # p)"
      using wd by (simp add: Join_Clean)
    also have "\<dots> = CHR ''/'' # Join_sep (clean_elems True (Split CHR ''/'' (wd @ CHR ''/'' # p)))"
      using wd by (intro Clean_rooted) auto
    finally show ?thesis by (simp only: Split_append)
  qed
  show "Abs os d = Inr (CHR ''/'' # Join_sep ?W)"
    using d wd(1) by (simp add: Abs_def IsAbs_iff wd_join)
  have kept: "\<forall>e \<in> set (?DF @ cs). kept_elem e"
    using plain_elems_kept [OF cs] clean_elems_kept [of False d] by auto
  let ?full = "if ?DF @ cs = [] then ''.'' else Join_sep (?DF @ cs)"
  have "Join d (CHR ''/'' # Join_sep cs) = Clean (d @ CHR ''/'' # CHR ''/'' # Join_sep cs)"
    using d by (simp add: Join_Clean)
  also have "\<dots> = (if clean_elems False (Split CHR ''/'' (d @ CHR ''/'' # CHR ''/'' # Join_sep cs)) = [] then ''.''
                     else Join_sep (clean_elems False (Split CHR ''/'' (d @ CHR ''/'' # CHR ''/'' # Join_sep cs))))"
    using d by (intro Clean_unrooted) auto
  also have "clean_elems False (Split CHR ''/'' (d @ CHR ''/'' # CHR ''/'' # Join_sep cs)) = ?DF @ cs"
    by (simp only: clean_elems_def Split_append foldl_append foldl_clean_rooted_string [OF cs] rev_append rev_rev_ident)
  finally have full: "Join d (CHR ''/'' # Join_sep cs) = ?full" .
  have not_abs: "\<not> IsAbs ?full"
    by (rule unrooted_string_not_abs [OF kept])
  have "foldl (clean_step True) acc (Split CHR ''/'' ?full) = rev cs @ foldl (clean_step True) acc (Split CHR ''/'' d)" for acc
  proof -
    have "foldl (clean_step True) acc (Split CHR ''/'' ?full) = foldl (clean_step True) acc (?DF @ cs)"
      by (rule foldl_clean_unrooted_string [OF kept])
    also have "\<dots> = rev cs @ foldl (clean_step True) acc ?DF"
      by (simp add: foldl_clean_plain [OF cs])
    also have "foldl (clean_step True) acc ?DF = foldl (clean_step True) acc (Split CHR ''/'' d)"
      unfolding clean_elems_def by (rule foldl_clean_absorb [OF Split_elems_sepfree_all])
    finally show ?thesis .
  qed
  then have "clean_elems True (Split CHR ''/'' wd @ Split CHR ''/'' ?full) = ?W @ cs"
    by (simp add: clean_elems_def)
  then have "Join wd ?full = CHR ''/'' # Join_sep (?W @ cs)"
    by (simp only: wd_join)
  with not_abs wd(1) show "Abs os (Join d (CHR ''/'' # Join_sep cs)) = Inr (CHR ''/'' # Join_sep (?W @ cs))"
    by (simp only: full Abs_def if_False sum.case)
qed

lemma Join_sep_inject:
  assumes "\<forall>e \<in> set xs. kept_elem e" and "\<forall>e \<in> set ys. kept_elem e"
    and "xs \<noteq> []" and "ys \<noteq> []" and "Join_sep xs = Join_sep ys"
  shows "xs = ys"
proof -
  have "xs = Split CHR ''/'' (Join_sep xs)"
    by (rule sym) (rule Split_Join_sep [OF assms(3) kept_elems_sepfree [OF assms(1)]])
  also have "\<dots> = Split CHR ''/'' (Join_sep ys)"
    by (simp only: assms(5))
  also have "\<dots> = ys"
    by (rule Split_Join_sep [OF assms(4) kept_elems_sepfree [OF assms(2)]])
  finally show ?thesis .
qed

text \<open>Joining two different clean rooted paths onto a directory gives different paths.\<close>

lemma Join_rooted_inject:
  assumes d: "d \<noteq> []" and xs: "\<forall>e \<in> set xs. plain_elem e" and ys: "\<forall>e \<in> set ys. plain_elem e"
    and ne: "xs \<noteq> []" "ys \<noteq> []"
    and eq: "Join d (CHR ''/'' # Join_sep xs) = Join d (CHR ''/'' # Join_sep ys)"
  shows "xs = ys"
proof -
  define D where "D = clean_elems (hd d = CHR ''/'') (Split CHR ''/'' d)"
  have D: "\<forall>e \<in> set D. kept_elem e"
    unfolding D_def by (rule clean_elems_kept)
  have eqJ: "Join_sep (D @ xs) = Join_sep (D @ ys)"
  proof (cases "hd d = CHR ''/''")
    case True
    from Abs_rooted_dir(2) [OF d True xs] Abs_rooted_dir(2) [OF d True ys] eq True
    show ?thesis by (simp add: D_def)
  next
    case False
    from Join_unrooted_dir [OF d False xs] Join_unrooted_dir [OF d False ys] eq False ne
    show ?thesis by (simp add: D_def)
  qed
  have k1: "\<forall>e \<in> set (D @ xs). kept_elem e" and k2: "\<forall>e \<in> set (D @ ys). kept_elem e"
    using D plain_elems_kept [OF xs] plain_elems_kept [OF ys] by auto
  from ne have n1: "D @ xs \<noteq> []" and n2: "D @ ys \<noteq> []"
    by simp_all
  have "D @ xs = D @ ys"
    by (rule Join_sep_inject [OF k1 k2 n1 n2 eqJ])
  then show ?thesis by simp
qed

section \<open>Containment of the served paths\<close>

lemma QueryUnescape_rooted:
  assumes "HasPrefix p ''/''" and "QueryUnescape p = Inr dp"
  shows "dp \<noteq> [] \<and> hd dp = CHR ''/''"
  using assms by (cases p) (auto simp: HasPrefix_def split: sum.splits)

lemma resolvePath_Inr:
  assumes "resolvePath os config r = Inr (fullPath, cleanPath)"
  shows "\<exists>dp root ap. QueryUnescape (URL_Path r) = Inr dp
           \<and> cleanPath = (if Clean dp = ''.'' then ''/'' else Clean dp)
           \<and> fullPath = Join (Directory (Media config)) cleanPath
           \<and> Abs os (Directory (Media config)) = Inr root
           \<and> Abs os fullPath = Inr ap
           \<and> HasPrefix ap root"
  using assms by (auto simp: resolvePath_def Let_def split: sum.splits if_splits)

lemma rooted_cleanPath:
  assumes "dp \<noteq> []" and "hd dp = CHR ''/''"
  shows "(if Clean dp = ''.'' then ''/'' else Clean dp)
           = CHR ''/'' # Join_sep (clean_elems True (Split CHR ''/'' dp))"
  using assms by (simp add: Clean_rooted)

lemma joined_within_root:
  assumes d: "d \<noteq> []" and cs: "\<forall>e \<in> set cs. plain_elem e"
    and wd: "case Getwd os of Inl err \<Rightarrow> True | Inr wd \<Rightarrow> IsAbs wd"
    and root: "Abs os d = Inr root"
    and ap: "Abs os (Join d (CHR ''/'' # Join_sep cs)) = Inr ap"
  shows "\<exists>ds. (\<forall>e \<in> set ds. plain_elem e) \<and> root = CHR ''/'' # Join_sep ds
              \<and> ap = CHR ''/'' # Join_sep (ds @ cs)"
proof (cases "hd d = CHR ''/''")
  case True
  let ?D = "clean_elems True (Split CHR ''/'' d)"
  from Abs_rooted_dir(1) [OF d True cs, of os] root
  have "root = CHR ''/'' # Join_sep ?D" by simp
  moreover from Abs_rooted_dir(3) [OF d True cs, of os] ap
  have "ap = CHR ''/'' # Join_sep (?D @ cs)" by simp
  ultimately show ?thesis
    using clean_elems_rooted_plain [of d] by blast
next
  case False
  with d root obtain wd where getwd: "Getwd os = Inr wd"
    by (auto simp: Abs_def IsAbs_iff split: sum.splits)
  with wd have wd': "wd \<noteq> []" "hd wd = CHR ''/''"
    by (simp_all add: IsAbs_iff)
  let ?W = "clean_elems True (Split CHR ''/'' wd @ Split CHR ''/'' d)"
  have "Split CHR ''/'' wd @ Split CHR ''/'' d = Split CHR ''/'' (wd @ CHR ''/'' # d)"
    by (simp add: Split_append)
  then have plain: "\<forall>e \<in> set ?W. plain_elem e"
    using clean_elems_rooted_plain [of "wd @ CHR ''/'' # d"] by simp
  from Abs_relative_dir(1) [OF d False cs getwd wd'] root
  have "root = CHR ''/'' # Join_sep ?W" by simp
  moreover from Abs_relative_dir(2) [OF d False cs getwd wd'] ap
  have "ap = CHR ''/'' # Join_sep (?W @ cs)" by simp
  ultimately show ?thesis
    using plain by blast
qed




text \<open>
  For request paths that begin with a slash the comparison of the absolute paths
  always succeeds: the reply 403 does not occur.
\<close>

lemma rooted_path_never_forbidden:
  assumes dir: "Directory (Media config) \<noteq> []"
    and rooted: "HasPrefix (URL_Path r) ''/''"
    and wd: "case Getwd os of Inl err \<Rightarrow> True | Inr wd \<Rightarrow> IsAbs wd"
  shows "resolvePath os config r \<noteq> Inl (HttpError 403 ''Forbidden'')"
proof (cases "QueryUnescape (URL_Path r)")
  case (Inl err)
  then show ?thesis by (simp add: resolvePath_def)
next
  case (Inr dp)
  let ?cs = "clean_elems True (Split CHR ''/'' dp)"
  let ?full = "Join (Directory (Media config)) (CHR ''/'' # Join_sep ?cs)"
  from QueryUnescape_rooted [OF rooted Inr]
  have cp: "(if Clean dp = ''.'' then ''/'' else Clean dp) = CHR ''/'' # Join_sep ?cs"
    by (simp add: rooted_cleanPath)
  have cs: "\<forall>e \<in> set ?cs. plain_elem e"
    by (rule clean_elems_rooted_plain)
  show ?thesis
  proof (cases "Abs os (Directory (Media config))")
    case root_err: (Inl err)
    with Inr show ?thesis by (simp add: resolvePath_def Let_def)
  next
    case root: (Inr root)
    show ?thesis
    proof (cases "Abs os ?full")
      case ap_err: (Inl err)
      with Inr root cp show ?thesis by (simp add: resolvePath_def Let_def)
    next
      case ap: (Inr ap)
      from joined_within_root [OF dir cs wd root ap] obtain ds where
        "root = CHR ''/'' # Join_sep ds" and "ap = CHR ''/'' # Join_sep (ds @ ?cs)"
        by blast
      then have "HasPrefix ap root"
        by (simp only: HasPrefix_rooted_elems)
      with Inr root ap cp show ?thesis by (simp add: resolvePath_def Let_def)
    qed
  qed
qed

text \<open>
  The hypothesis on the request path is needed.  For a path without a leading
  slash, which the router does not pass to this handler, the joined path can leave
  the served root and still pass the comparison of the absolute paths as strings.
\<close>

lemma path_without_leading_slash:
  "handleRequest sample_os sample_config \<lparr>Method = ''GET'', URL_Path = ''../media2/x''\<rparr>
     = (HttpError 404 ''404 page not found'',
        [OsStat ''media2/x'', LogPrintf ''File not found: media2/x (requested: ../media2/x)''])
   \<and> Abs sample_os ''media2/x'' = Inr ''/opt/http-media-server/media2/x''
   \<and> clean_abs ''/opt/http-media-server/media'' \<and> clean_abs ''/opt/http-media-server/media2/x''
   \<and> \<not> prefix (path_elems ''/opt/http-media-server/media'')
                (path_elems ''/opt/http-media-server/media2/x'')
   \<and> \<not> within_root ''/opt/http-media-server/media'' ''/opt/http-media-server/media2/x''"
  by code_simp

section \<open>The containment check\<close>

text \<open>
  Claim C2.  The check compares the absolute paths as strings.  With the root
  \<^verbatim>\<open>/data\<close>, \<^verbatim>\<open>IsValidMediaPath\<close> accepts \<^verbatim>\<open>../data-other/secret\<close>, which joins to
  \<^verbatim>\<open>/data-other/secret\<close>: a sibling of the root, not a path within it.
\<close>

theorem sibling_directory_accepted:
  "IsValidMediaPath sample_os data_config ''../data-other/secret'' = Inr True
   \<and> Abs sample_os (Join ''/data'' (Clean ''../data-other/secret'')) = Inr ''/data-other/secret''
   \<and> HasPrefix ''/data-other/secret'' ''/data''
   \<and> clean_abs ''/data'' \<and> clean_abs ''/data-other/secret''
   \<and> \<not> prefix (path_elems ''/data'') (path_elems ''/data-other/secret'')
   \<and> \<not> within_root ''/data'' ''/data-other/secret''"
  by code_simp

section \<open>Malformed request paths\<close>

text \<open>
  Claim C8.  When the percent-decoding of the request path fails, \<^verbatim>\<open>handleRequest\<close>
  replies 400 "Invalid URL path" and has no other effect: nothing is logged, and no
  file-system call is made (the list of effects is empty, whatever the platform).
\<close>

theorem malformed_path_bad_request:
  assumes "QueryUnescape (URL_Path r) = Inl err"
  shows "handleRequest os config r = (HttpError 400 ''Invalid URL path'', [])"
  using assms by (simp add: handleRequest_def resolvePath_def)

theorem malformed_path_bad_request_witness:
  "QueryUnescape (URL_Path \<lparr>Method = ''GET'', URL_Path = ''/movies/%zz.mp4''\<rparr>) = Inl (EscapeError ''%zz'')
   \<and> handleRequest sample_os sample_config \<lparr>Method = ''GET'', URL_Path = ''/movies/%zz.mp4''\<rparr>
       = (HttpError 400 ''Invalid URL path'', [])"
proof -
  have bad: "QueryUnescape (URL_Path \<lparr>Method = ''GET'', URL_Path = ''/movies/%zz.mp4''\<rparr>) = Inl (EscapeError ''%zz'')"
    by (simp add: ishex_def)
  from malformed_path_bad_request [OF bad] bad show ?thesis by simp
qed

section \<open>Plus signs in request paths\<close>

lemma ishex_plus: "\<not> ishex CHR ''+''"
  by (simp add: ishex_def)

lemma QueryUnescape_plus:
  "QueryUnescape (a @ CHR ''+'' # b) = Inr d \<Longrightarrow>
   \<exists>a' b'. QueryUnescape a = Inr a' \<and> QueryUnescape b = Inr b' \<and> d = a' @ CHR '' '' # b'"
proof (induction a arbitrary: d rule: QueryUnescape.induct)
  case 1
  then show ?case by (auto split: sum.splits)
next
  case (2 c s)
  show ?case
  proof (cases "c = CHR ''%''")
    case False
    with "2.prems" obtain t where t: "QueryUnescape (s @ CHR ''+'' # b) = Inr t"
      and d: "d = (if c = CHR ''+'' then CHR '' '' else c) # t"
      by (auto split: sum.splits)
    from "2.IH"(2) [OF False t] obtain a' b' where
      "QueryUnescape s = Inr a'" "QueryUnescape b = Inr b'" "t = a' @ CHR '' '' # b'"
      by blast
    with False d show ?thesis by simp
  next
    case True
    show ?thesis
    proof (cases s)
      case Nil
      with True "2.prems" show ?thesis
        by (auto simp: ishex_plus split: list.splits)
    next
      case (Cons x s')
      show ?thesis
      proof (cases s')
        case Nil
        with True Cons "2.prems" show ?thesis
          by (auto simp: ishex_plus)
      next
        case (Cons y rest)
        with True \<open>s = x # s'\<close> "2.prems" have hex: "ishex x \<and> ishex y"
          by (auto split: if_splits)
        with True \<open>s = x # s'\<close> Cons "2.prems" obtain t where
          t: "QueryUnescape (rest @ CHR ''+'' # b) = Inr t"
          and d: "d = char_of (unhex x * 16 + unhex y) # t"
          by (auto split: sum.splits)
        from \<open>s = x # s'\<close> Cons have s: "s = x # y # rest" by simp
        from "2.IH"(1) [OF True \<open>s = x # s'\<close> Cons hex t] obtain a' b' where
          "QueryUnescape rest = Inr a'" "QueryUnescape b = Inr b'" "t = a' @ CHR '' '' # b'"
          by blast
        with True s hex d show ?thesis by simp
      qed
    qed
  qed
qed

lemma QueryUnescape_literal:
  "CHR ''%'' \<notin> set p \<Longrightarrow> QueryUnescape p = Inr (map plus_to_space p)"
  by (induction p) (auto simp: plus_to_space_def)

lemma plus_to_space_simps:
  "plus_to_space c = CHR ''/'' \<longleftrightarrow> c = CHR ''/''"
  "plus_to_space c = CHR ''.'' \<longleftrightarrow> c = CHR ''.''"
  "plus_to_space c \<noteq> CHR ''+''"
  by (simp_all add: plus_to_space_def)

lemma plain_elem_plus_to_space:
  assumes "plain_elem e"
  shows "plain_elem (map plus_to_space e)"
proof -
  from assms have e: "e \<noteq> []" "e \<noteq> ''.''" "e \<noteq> ''..''" "CHR ''/'' \<notin> set e"
    by (simp_all add: plain_elem_def)
  have dot: "map plus_to_space e = ''.'' \<Longrightarrow> e = ''.''"
    by (auto simp: map_eq_Cons_conv plus_to_space_simps)
  have dotdot: "map plus_to_space e = ''..'' \<Longrightarrow> e = ''..''"
    by (auto simp: map_eq_Cons_conv plus_to_space_simps)
  have a: "map plus_to_space e \<noteq> []"
    using e(1) by simp
  have b: "map plus_to_space e \<noteq> ''.''"
    using e(2) dot by (rule contrapos_nn)
  have c: "map plus_to_space e \<noteq> ''..''"
    using e(3) dotdot by (rule contrapos_nn)
  have d: "CHR ''/'' \<notin> set (map plus_to_space e)"
    using e(4) by (auto simp: plus_to_space_def split: if_splits)
  from a b c d show ?thesis
    unfolding plain_elem_def by (intro conjI)
qed

lemma resolve_plus_path:
  assumes dir: "Directory (Media config) \<noteq> []"
    and rooted: "HasPrefix p ''/''" and clean: "Clean p = p"
    and literal: "CHR ''%'' \<notin> set p" and plus: "CHR ''+'' \<in> set p"
    and url: "URL_Path r = p"
    and res: "resolvePath os config r = Inr (fullPath, cleanPath)"
  shows "fullPath = Join (Directory (Media config)) (map plus_to_space p)
         \<and> fullPath \<noteq> Join (Directory (Media config)) p"
proof -
  let ?xs = "clean_elems True (Split CHR ''/'' p)"
  let ?ys = "map (map plus_to_space) ?xs"
  from rooted have p: "p \<noteq> []" "hd p = CHR ''/''"
    by (simp_all add: IsAbs_iff [unfolded IsAbs_def])
  with clean have form: "p = CHR ''/'' # Join_sep ?xs"
    by (simp add: Clean_rooted)
  have xs: "\<forall>e \<in> set ?xs. plain_elem e"
    by (rule clean_elems_rooted_plain)
  then have ys: "\<forall>e \<in> set ?ys. plain_elem e"
    by (simp add: plain_elem_plus_to_space)
  have "map plus_to_space p = map plus_to_space (CHR ''/'' # Join_sep ?xs)"
    using form by simp
  then have form': "map plus_to_space p = CHR ''/'' # Join_sep ?ys"
    by (simp add: Join_sep_map plus_to_space_def)
  have "Clean (CHR ''/'' # Join_sep ?ys)
          = CHR ''/'' # Join_sep (clean_elems True (Split CHR ''/'' (CHR ''/'' # Join_sep ?ys)))"
    by (rule Clean_rooted) simp_all
  also have "clean_elems True (Split CHR ''/'' (CHR ''/'' # Join_sep ?ys)) = ?ys"
    by (rule clean_elems_rooted_string [OF ys])
  finally have clean': "Clean (map plus_to_space p) = map plus_to_space p"
    by (simp only: form')
  from resolvePath_Inr [OF res] url QueryUnescape_literal [OF literal]
  have "fullPath = Join (Directory (Media config))
                     (if Clean (map plus_to_space p) = ''.'' then ''/'' else Clean (map plus_to_space p))"
    by auto
  with clean' form' have full: "fullPath = Join (Directory (Media config)) (map plus_to_space p)"
    by simp
  have "Join (Directory (Media config)) (map plus_to_space p) \<noteq> Join (Directory (Media config)) p"
  proof
    assume eq: "Join (Directory (Media config)) (map plus_to_space p) = Join (Directory (Media config)) p"
    from plus form have "?xs \<noteq> []" by auto
    then have "?ys \<noteq> []" by simp
    from eq have "Join (Directory (Media config)) (CHR ''/'' # Join_sep ?ys)
                    = Join (Directory (Media config)) (CHR ''/'' # Join_sep ?xs)"
      using form form' by simp
    from Join_rooted_inject [OF dir ys xs \<open>?ys \<noteq> []\<close> \<open>?xs \<noteq> []\<close> this]
    have "map plus_to_space p = p"
      using form form' by simp
    then have "CHR ''+'' \<in> set (map plus_to_space p)"
      using plus by simp
    then show False
      by (auto simp: plus_to_space_def split: if_splits)
  qed
  with full show ?thesis by simp
qed

text \<open>
  Claim C10.  \<^verbatim>\<open>url.QueryUnescape\<close> turns a plus sign of the request path into a
  space: when a path with a plus sign decodes, the result is the decoding of what
  stands before it, a space, and the decoding of what stands after it.  So a request
  for the clean literal path \<open>p\<close> of a file (no escapes) with a plus sign in it
  resolves to the path with a space for every plus sign, which is not the file's
  path \<^verbatim>\<open>filepath.Join(dir, p)\<close>, and no file-system call of the handler is made on
  the file's path.
\<close>

theorem plus_decoded_as_space:
  "(QueryUnescape (a @ CHR ''+'' # b) = Inr d \<longrightarrow>
      (\<exists>a' b'. QueryUnescape a = Inr a' \<and> QueryUnescape b = Inr b' \<and> d = a' @ CHR '' '' # b'))
   \<and> (Directory (Media config) \<noteq> [] \<and> HasPrefix p ''/'' \<and> Clean p = p
        \<and> CHR ''%'' \<notin> set p \<and> CHR ''+'' \<in> set p \<and> URL_Path r = p \<longrightarrow>
          QueryUnescape p = Inr (map plus_to_space p)
          \<and> (\<forall>fullPath cleanPath. resolvePath os config r = Inr (fullPath, cleanPath) \<longrightarrow>
                fullPath = Join (Directory (Media config)) (map plus_to_space p)
                \<and> fullPath \<noteq> Join (Directory (Media config)) p)
          \<and> (\<forall>ev \<in> set (snd (handleRequest os config r)).
                Join (Directory (Media config)) p \<notin> set (touched ev)))"
proof (intro conjI impI)
  assume "QueryUnescape (a @ CHR ''+'' # b) = Inr d"
  then show "\<exists>a' b'. QueryUnescape a = Inr a' \<and> QueryUnescape b = Inr b' \<and> d = a' @ CHR '' '' # b'"
    by (rule QueryUnescape_plus)
next
  assume h: "Directory (Media config) \<noteq> [] \<and> HasPrefix p ''/'' \<and> Clean p = p
        \<and> CHR ''%'' \<notin> set p \<and> CHR ''+'' \<in> set p \<and> URL_Path r = p"
  then show "QueryUnescape p = Inr (map plus_to_space p)"
    by (simp add: QueryUnescape_literal)
  from h have res: "resolvePath os config r = Inr (fullPath, cleanPath) \<Longrightarrow>
      fullPath = Join (Directory (Media config)) (map plus_to_space p)
      \<and> fullPath \<noteq> Join (Directory (Media config)) p" for fullPath cleanPath
    by (intro resolve_plus_path [of config p r os fullPath cleanPath]) simp_all
  then show "\<forall>fullPath cleanPath. resolvePath os config r = Inr (fullPath, cleanPath) \<longrightarrow>
                fullPath = Join (Directory (Media config)) (map plus_to_space p)
                \<and> fullPath \<noteq> Join (Directory (Media config)) p"
    by blast
  show "\<forall>ev \<in> set (snd (handleRequest os config r)).
          Join (Directory (Media config)) p \<notin> set (touched ev)"
  proof
    fix ev
    assume ev: "ev \<in> set (snd (handleRequest os config r))"
    show "Join (Directory (Media config)) p \<notin> set (touched ev)"
    proof (cases "resolvePath os config r")
      case (Inl reply)
      with ev show ?thesis by (simp add: handleRequest_def)
    next
      case (Inr pc)
      obtain fullPath cleanPath where pc: "pc = (fullPath, cleanPath)" by (cases pc)
      with Inr ev have "ev \<in> set (snd (dispatch os r fullPath cleanPath))"
        by (simp add: handleRequest_def)
      then have only: "q \<in> set (touched ev) \<Longrightarrow> q = fullPath" for q
        by (rule dispatch_touched)
      from res [OF Inr [unfolded pc]]
      have differs: "fullPath \<noteq> Join (Directory (Media config)) p" by (rule conjunct2)
      show ?thesis
      proof
        assume "Join (Directory (Media config)) p \<in> set (touched ev)"
        then have "Join (Directory (Media config)) p = fullPath" by (rule only)
        with differs show False by simp
      qed
    qed
  qed
qed

theorem plus_decoded_as_space_witness:
  "QueryUnescape (''/a'' @ CHR ''+'' # ''b.txt'') = Inr ''/a b.txt''
   \<and> QueryUnescape ''/a'' = Inr ''/a'' \<and> QueryUnescape ''b.txt'' = Inr ''b.txt''
   \<and> Directory (Media sample_config) \<noteq> [] \<and> HasPrefix ''/a+b.txt'' ''/''
   \<and> Clean ''/a+b.txt'' = ''/a+b.txt''
   \<and> CHR ''%'' \<notin> set ''/a+b.txt'' \<and> CHR ''+'' \<in> set ''/a+b.txt''
   \<and> resolvePath sample_os sample_config \<lparr>Method = ''GET'', URL_Path = ''/a+b.txt''\<rparr>
        = Inr (''media/a b.txt'', ''/a b.txt'')
   \<and> Join (Directory (Media sample_config)) ''/a+b.txt'' = ''media/a+b.txt''
   \<and> ''media/a b.txt'' \<noteq> Join (Directory (Media sample_config)) ''/a+b.txt''
   \<and> Stat sample_os ''media/a+b.txt'' = Inr (sample_info ''a+b.txt'' False)
   \<and> handleRequest sample_os sample_config \<lparr>Method = ''GET'', URL_Path = ''/a+b.txt''\<rparr>
        = (HttpError 404 ''404 page not found'',
           [OsStat ''media/a b.txt'',
            LogPrintf ''File not found: media/a b.txt (requested: /a+b.txt)''])"
proof -
  let ?r = "\<lparr>Method = ''GET'', URL_Path = ''/a+b.txt''\<rparr>"
  have dec: "QueryUnescape (''/a'' @ CHR ''+'' # ''b.txt'') = Inr ''/a b.txt''" by code_simp
  have da: "QueryUnescape ''/a'' = Inr ''/a''" by code_simp
  have db: "QueryUnescape ''b.txt'' = Inr ''b.txt''" by code_simp
  have dir: "Directory (Media sample_config) \<noteq> []" by code_simp
  have rooted: "HasPrefix ''/a+b.txt'' ''/''" by code_simp
  have clean: "Clean ''/a+b.txt'' = ''/a+b.txt''" by code_simp
  have lit: "CHR ''%'' \<notin> set ''/a+b.txt''" by simp
  have plus: "CHR ''+'' \<in> set ''/a+b.txt''" by simp
  have url: "URL_Path ?r = ''/a+b.txt''" by simp
  have res: "resolvePath sample_os sample_config ?r = Inr (''media/a b.txt'', ''/a b.txt'')"
    by code_simp
  have entry: "Join (Directory (Media sample_config)) ''/a+b.txt'' = ''media/a+b.txt''"
    by code_simp
  have stat: "Stat sample_os ''media/a+b.txt'' = Inr (sample_info ''a+b.txt'' False)"
    by code_simp
  have run: "handleRequest sample_os sample_config ?r
        = (HttpError 404 ''404 page not found'',
           [OsStat ''media/a b.txt'',
            LogPrintf ''File not found: media/a b.txt (requested: /a+b.txt)''])"
    by code_simp
  note thm1 = plus_decoded_as_space [of "''/a''" "''b.txt''" "''/a b.txt''" sample_config "''/a+b.txt''" ?r sample_os]
  from thm1 dir rooted clean lit plus url res
  have miss: "''media/a b.txt'' \<noteq> Join (Directory (Media sample_config)) ''/a+b.txt''"
    by blast
  from dec da db dir rooted clean lit plus res entry miss stat run show ?thesis
    by (intro conjI)
qed

section \<open>Links of a listing\<close>

text \<open>
  Claim C3.  The record of the entry \<^verbatim>\<open>a+b.txt\<close> of the served root (the file
  \<^verbatim>\<open>media/a+b.txt\<close>) has the link \<^verbatim>\<open>%2Fa+b.txt\<close>; resolving the link, or the record's
  unescaped path, ends at \<^verbatim>\<open>media/a b.txt\<close>.
\<close>

theorem plus_name_link_misses_entry:
  "entry_file sample_os ''/'' (sample_entry ''a+b.txt'' False)
     = Some (sample_file ''a+b.txt'' ''text/plain; charset=utf-8'' ''%2Fa+b.txt'')
   \<and> resolvePath sample_os sample_config sample_request = Inr (''media'', ''/'')
   \<and> Join ''media'' ''a+b.txt'' = ''media/a+b.txt''
   \<and> resolvePath sample_os sample_config \<lparr>Method = ''GET'', URL_Path = ''%2Fa+b.txt''\<rparr>
       = Inr (''media/a b.txt'', ''/a b.txt'')
   \<and> resolvePath sample_os sample_config \<lparr>Method = ''GET'', URL_Path = ''/a+b.txt''\<rparr>
       = Inr (''media/a b.txt'', ''/a b.txt'')"
  by code_simp

section \<open>Dispatch on file metadata\<close>




section \<open>Directory listings\<close>

subsection \<open>Insertion sort\<close>

lemma mset_insert_less: "mset (insert_less lt x ys) = add_mset x (mset ys)"
  by (induction ys) auto

lemma set_insert_less: "set (insert_less lt x ys) = insert x (set ys)"
  by (induction ys) auto

lemma mset_insert_loop:
  "mset (foldl (\<lambda>done x. insert_less lt x done) acc xs) = mset xs + mset acc"
  by (induction xs arbitrary: acc) (auto simp: mset_insert_less)

lemma mset_sort_Slice: "mset (sort_Slice lt xs) = mset xs"
  by (simp add: sort_Slice_def mset_insert_loop)

lemma set_sort_Slice: "set (sort_Slice lt xs) = set xs"
  using mset_sort_Slice [of lt xs] by (metis set_mset_mset)

lemma sorted_insert_less:
  fixes k :: "'a \<Rightarrow> 'b::linorder"
  assumes lt: "\<And>a b. lt a b \<longleftrightarrow> k a < k b"
    and "sorted_wrt (\<lambda>a b. k b \<le> k a) ys"
  shows "sorted_wrt (\<lambda>a b. k b \<le> k a) (insert_less lt x ys)"
  using assms(2)
proof (induction ys)
  case Nil
  then show ?case by simp
next
  case (Cons y ys)
  then show ?case by (auto simp: lt set_insert_less)
qed

lemma sorted_insert_loop:
  fixes k :: "'a \<Rightarrow> 'b::linorder"
  assumes lt: "\<And>a b. lt a b \<longleftrightarrow> k a < k b"
    and "sorted_wrt (\<lambda>a b. k b \<le> k a) acc"
  shows "sorted_wrt (\<lambda>a b. k b \<le> k a) (foldl (\<lambda>done x. insert_less lt x done) acc xs)"
  using assms(2)
  by (induction xs arbitrary: acc) (auto intro: sorted_insert_less [of lt k, OF lt])

lemma sorted_sort_Slice:
  fixes k :: "'a \<Rightarrow> 'b::linorder"
  assumes lt: "\<And>a b. lt a b \<longleftrightarrow> k a < k b"
  shows "sorted_wrt (\<lambda>a b. k a \<le> k b) (sort_Slice lt xs)"
proof -
  have "sorted_wrt (\<lambda>a b. k b \<le> k a) (foldl (\<lambda>done x. insert_less lt x done) [] xs)"
    by (rule sorted_insert_loop [of lt k, OF lt]) simp
  then show ?thesis
    by (simp add: sort_Slice_def sorted_wrt_rev)
qed

subsection \<open>Hidden entries and the order of a listing\<close>

lemma less_files_key: "less_files os a b \<longleftrightarrow> listing_key os a < listing_key os b"
  by (auto simp: less_files_def listing_key_def)

lemma key_le_ordered:
  "listing_key os a \<le> listing_key os b \<Longrightarrow>
   (if IsDir a = IsDir b then ToLower os (Name a) \<le> ToLower os (Name b) else IsDir a)"
  by (auto simp: listing_key_def)

lemma sorted_perm_listing_ordered:
  assumes "sorted_wrt (\<lambda>a b. listing_key os a \<le> listing_key os b) files"
  shows "listing_ordered os files"
  unfolding listing_ordered_def
  by (rule sorted_wrt_mono_rel [OF _ assms]) (rule key_le_ordered)

lemma Files_serveDirectory:
  assumes "serveDirectory os r fullPath urlPath = (DirectoryPage data, evs)"
  shows "\<exists>entries. ReadDir os fullPath = Inr entries
           \<and> Files data = sort_Slice (less_files os) (list_entries os urlPath entries)"
  using assms by (auto simp: serveDirectory_def Let_def split: sum.splits)

lemma set_list_entries:
  "set (list_entries os urlPath entries) = {f. \<exists>e \<in> set entries. entry_file os urlPath e = Some f}"
  by (force simp: list_entries_def List.map_filter_def image_iff)

lemma entry_file_not_hidden:
  "entry_file os urlPath e = Some f \<Longrightarrow>
     \<not> HasPrefix (Name f) ''.'' \<and> (\<exists>info. de_Info e = Inr info \<and> Name f = fs_Name info \<and> IsDir f = fs_IsDir info)"
  by (auto simp: entry_file_def Let_def split: sum.splits if_splits)

text \<open>
  Claim C4.  No record of a listing has a name that begins with a dot, whether the
  entry is a file or a directory.
\<close>

theorem hidden_entries_never_listed:
  assumes "serveDirectory os r fullPath urlPath = (DirectoryPage data, evs)"
  shows "\<forall>f \<in> set (Files data). \<not> HasPrefix (Name f) ''.''"
proof -
  from Files_serveDirectory [OF assms] obtain entries
    where "Files data = sort_Slice (less_files os) (list_entries os urlPath entries)" by blast
  then have "set (Files data) = set (list_entries os urlPath entries)"
    by (simp add: set_sort_Slice)
  then show ?thesis
    by (auto simp: set_list_entries dest: entry_file_not_hidden)
qed

theorem hidden_entries_never_listed_witness:
  "ReadDir sample_os ''media'' = Inr sample_entries
   \<and> hd sample_entries = sample_entry ''.hidden'' False
   \<and> serveDirectory sample_os sample_request ''media'' ''/'' =
        (DirectoryPage sample_listing, [OsReadDir ''media''])
   \<and> list_all (\<lambda>f. \<not> HasPrefix (Name f) ''.'') (Files sample_listing)"
proof -
  have dir: "ReadDir sample_os ''media'' = Inr sample_entries"
    by code_simp
  have first: "hd sample_entries = sample_entry ''.hidden'' False"
    by (simp add: sample_entries_def)
  have run: "serveDirectory sample_os sample_request ''media'' ''/'' =
        (DirectoryPage sample_listing, [OsReadDir ''media''])"
    by code_simp
  from hidden_entries_never_listed [OF run]
  have "list_all (\<lambda>f. \<not> HasPrefix (Name f) ''.'') (Files sample_listing)"
    by (simp add: list_all_iff)
  with dir first run show ?thesis by blast
qed

text \<open>
  Claim C5.  In every listing that \<^verbatim>\<open>serveDirectory\<close> produces, a directory never
  comes after a file, and two records of the same kind stand in the order of their
  lower-cased names.
\<close>

theorem listing_directories_first_sorted:
  assumes "serveDirectory os r fullPath urlPath = (DirectoryPage data, evs)"
  shows "listing_ordered os (Files data)"
proof -
  from Files_serveDirectory [OF assms] obtain entries
    where "Files data = sort_Slice (less_files os) (list_entries os urlPath entries)" by blast
  moreover have "sorted_wrt (\<lambda>a b. listing_key os a \<le> listing_key os b)
                   (sort_Slice (less_files os) (list_entries os urlPath entries))"
    by (rule sorted_sort_Slice) (rule less_files_key)
  ultimately show ?thesis by (simp add: sorted_perm_listing_ordered)
qed

theorem listing_directories_first_sorted_witness:
  "serveDirectory sample_os sample_request ''media'' ''/'' =
        (DirectoryPage sample_listing, [OsReadDir ''media''])
   \<and> listing_ordered sample_os (Files sample_listing)
   \<and> map Name (Files sample_listing) = [''sub'', ''a+b.txt'', ''a.txt'', ''Z.mp4'']"
proof -
  have run: "serveDirectory sample_os sample_request ''media'' ''/'' =
        (DirectoryPage sample_listing, [OsReadDir ''media''])"
    by code_simp
  have names: "map Name (Files sample_listing) = [''sub'', ''a+b.txt'', ''a.txt'', ''Z.mp4'']"
    by (simp add: sample_listing_def sample_file_def)
  from listing_directories_first_sorted [OF run] run names show ?thesis by blast
qed

subsection \<open>The order in which the entries are delivered\<close>










section \<open>Request methods\<close>

lemma resolvePath_Method: "resolvePath os config (r\<lparr>Method := m\<rparr>) = resolvePath os config r"
  by (simp add: resolvePath_def)

lemma serveDirectory_Method:
  "serveDirectory os (r\<lparr>Method := m\<rparr>) fullPath urlPath = serveDirectory os r fullPath urlPath"
  by (simp add: serveDirectory_def)

lemma dispatch_never_405: "fst (dispatch os r fullPath cleanPath) \<noteq> HttpError 405 body"
proof (cases "Stat os fullPath")
  case (Inl err)
  then show ?thesis by (simp add: dispatch_def)
next
  case (Inr fileInfo)
  with serveDirectory_cases [of os r fullPath cleanPath] serveFile_cases [of os r fullPath fileInfo]
  show ?thesis by (auto simp: dispatch_def)
qed

lemma resolvePath_never_405: "resolvePath os config r \<noteq> Inl (HttpError 405 body)"
  by (simp add: resolvePath_def Let_def split: sum.split)

text \<open>
  Claim C7, as the code has it.  The CORS middleware answers \<^verbatim>\<open>OPTIONS\<close> with 200
  and passes every other request on; \<^verbatim>\<open>handleRequest\<close> does not look at the method:
  changing the method changes nothing in its reply or its effects, except the
  request that is handed to \<^verbatim>\<open>http.ServeContent\<close>, and it never replies 405.
\<close>

theorem browse_method_not_checked:
  "corsMiddleware (handleRequest os config) r =
     (if Method r = ''OPTIONS'' then (cors_headers, WriteHeader 200, [])
      else (cors_headers, handleRequest os config r))
   \<and> handleRequest os config (r\<lparr>Method := m\<rparr>) =
       (case handleRequest os config r of
          (ServeContent r' hs name t, evs) \<Rightarrow> (ServeContent (r'\<lparr>Method := m\<rparr>) hs name t, evs)
        | other \<Rightarrow> other)
   \<and> fst (handleRequest os config r) \<noteq> HttpError 405 body"
proof -
  have a: "corsMiddleware (handleRequest os config) r =
     (if Method r = ''OPTIONS'' then (cors_headers, WriteHeader 200, [])
      else (cors_headers, handleRequest os config r))"
    by (simp add: corsMiddleware_def)
  have d: "dispatch os (r\<lparr>Method := m\<rparr>) fullPath cleanPath =
       (case dispatch os r fullPath cleanPath of
          (ServeContent r' hs name t, evs) \<Rightarrow> (ServeContent (r'\<lparr>Method := m\<rparr>) hs name t, evs)
        | other \<Rightarrow> other)" for fullPath cleanPath
  proof (cases "Stat os fullPath")
    case (Inl err)
    then show ?thesis by (simp add: dispatch_def)
  next
    case (Inr fileInfo)
    show ?thesis
    proof (cases "fs_IsDir fileInfo")
      case True
      with Inr serveDirectory_cases [of os r fullPath cleanPath] show ?thesis
        by (auto simp: dispatch_def serveDirectory_Method)
    next
      case False
      with Inr show ?thesis
        by (simp add: dispatch_def serveFile_def Let_def split: option.split)
    qed
  qed
  have b: "handleRequest os config (r\<lparr>Method := m\<rparr>) =
       (case handleRequest os config r of
          (ServeContent r' hs name t, evs) \<Rightarrow> (ServeContent (r'\<lparr>Method := m\<rparr>) hs name t, evs)
        | other \<Rightarrow> other)"
  proof (cases "resolvePath os config r")
    case (Inl reply)
    then have "\<exists>n body. reply = HttpError n body"
      by (auto simp: resolvePath_def Let_def split: sum.splits if_splits)
    with Inl show ?thesis
      by (auto simp: handleRequest_def resolvePath_Method)
  next
    case (Inr pc)
    then show ?thesis
      by (cases pc) (simp add: handleRequest_def resolvePath_Method d)
  qed
  have c: "fst (handleRequest os config r) \<noteq> HttpError 405 body"
  proof (cases "resolvePath os config r")
    case (Inl reply)
    with resolvePath_never_405 [of os config r body] show ?thesis
      by (simp add: handleRequest_def)
  next
    case (Inr pc)
    then show ?thesis
      by (cases pc) (simp add: handleRequest_def dispatch_never_405)
  qed
  from a b c show ?thesis by blast
qed

text \<open>
  Claim C7 as stated fails: an \<^verbatim>\<open>OPTIONS\<close> request gets 200, and a \<^verbatim>\<open>POST\<close> for a
  missing path gets 404 like a \<^verbatim>\<open>GET\<close>.
\<close>

theorem browse_method_counterexample:
  "Method \<lparr>Method = ''OPTIONS'', URL_Path = ''/''\<rparr> \<noteq> ''GET''
   \<and> Method \<lparr>Method = ''OPTIONS'', URL_Path = ''/''\<rparr> \<noteq> ''HEAD''
   \<and> corsMiddleware (handleRequest sample_os sample_config) \<lparr>Method = ''OPTIONS'', URL_Path = ''/''\<rparr>
       = (cors_headers, WriteHeader 200, [])
   \<and> corsMiddleware (handleRequest sample_os sample_config) \<lparr>Method = ''POST'', URL_Path = ''/nope''\<rparr>
       = (cors_headers, HttpError 404 ''404 page not found'',
          [OsStat ''media/nope'', LogPrintf ''File not found: media/nope (requested: /nope)''])"
  by code_simp

end
